theory Spec2Isabelle
  imports Complex_Main
begin

section \<open>Python values and errors\<close>

text \<open>
  The module \<^verbatim>\<open>example.py\<close> holds three functions, \<^verbatim>\<open>calculate_average\<close>,
  \<^verbatim>\<open>find_user\<close> and \<^verbatim>\<open>process_data\<close>. Each exception a function can raise on an
  input of its declared type is a constructor of \<open>py_error\<close>; a function that can raise
  returns \<open>py_error + 'a\<close>, with \<open>Inl\<close> for the exception that reaches the caller
  (the module has no \<^verbatim>\<open>try\<close> statement).
\<close>

datatype py_error = ZeroDivisionError | OverflowError | KeyError | AttributeError

subsection \<open>Numbers\<close>

text \<open>
  A number is a Python \<^verbatim>\<open>int\<close> (unbounded) or a \<^verbatim>\<open>float\<close>. Floating-point values
  are not constructed here: the type \<open>'f\<close> of floats and the four operations of the
  host language that the module reaches are parameters, and nothing is assumed of them
  (no associativity, no exactness). \<open>int_to_float\<close> and \<open>int_true_div\<close> are \<open>None\<close>
  where Python raises \<^verbatim>\<open>OverflowError\<close> (an int too large for a float).
\<close>

datatype 'f number = PyInt int | PyFloat 'f

record 'f float_ops =
  float_add :: "'f \<Rightarrow> 'f \<Rightarrow> 'f"
  float_div :: "'f \<Rightarrow> 'f \<Rightarrow> 'f"
  int_to_float :: "int \<Rightarrow> 'f option"
  int_true_div :: "int \<Rightarrow> int \<Rightarrow> 'f option"

text \<open>\<^verbatim>\<open>a + b\<close>: exact on two ints; a mixed sum converts the int operand first.\<close>

fun py_add :: "'f float_ops \<Rightarrow> 'f number \<Rightarrow> 'f number \<Rightarrow> py_error + 'f number" where
  "py_add ops (PyInt a) (PyInt b) = Inr (PyInt (a + b))"
| "py_add ops (PyInt a) (PyFloat y) =
     (case int_to_float ops a of
        None \<Rightarrow> Inl OverflowError
      | Some x \<Rightarrow> Inr (PyFloat (float_add ops x y)))"
| "py_add ops (PyFloat x) (PyInt b) =
     (case int_to_float ops b of
        None \<Rightarrow> Inl OverflowError
      | Some y \<Rightarrow> Inr (PyFloat (float_add ops x y)))"
| "py_add ops (PyFloat x) (PyFloat y) = Inr (PyFloat (float_add ops x y))"

text \<open>
  \<^verbatim>\<open>a / n\<close> for an int \<open>n\<close>, the only division of the module (\<open>n\<close> is a \<^verbatim>\<open>len\<close>).
  True division of two ints is a float; a zero divisor raises whatever the dividend is.
\<close>

fun py_truediv :: "'f float_ops \<Rightarrow> 'f number \<Rightarrow> int \<Rightarrow> py_error + 'f number" where
  "py_truediv ops (PyInt a) n =
     (if n = 0 then Inl ZeroDivisionError
      else (case int_true_div ops a n of
              None \<Rightarrow> Inl OverflowError
            | Some q \<Rightarrow> Inr (PyFloat q)))"
| "py_truediv ops (PyFloat x) n =
     (case int_to_float ops n of
        None \<Rightarrow> Inl OverflowError
      | Some y \<Rightarrow> if n = 0 then Inl ZeroDivisionError else Inr (PyFloat (float_div ops x y)))"

section \<open>Averager: \<^verbatim>\<open>calculate_average\<close>\<close>

text \<open>
  \<^verbatim>\<open>
  def calculate_average(numbers):
      total = 0
      for n in numbers:
          total = total + n
      avg = total / len(numbers)
      return avg
  \<close>
  The loop is \<open>sum_loop\<close>, with the variable \<^verbatim>\<open>total\<close> as its accumulator \<open>tot\<close>
  (\<open>total\<close> is a constant of HOL); an exception of \<^verbatim>\<open>+\<close> leaves the loop and the
  function.
\<close>

fun sum_loop :: "'f float_ops \<Rightarrow> 'f number \<Rightarrow> 'f number list \<Rightarrow> py_error + 'f number" where
  "sum_loop ops tot [] = Inr tot"
| "sum_loop ops tot (n # numbers) =
     (case py_add ops tot n of
        Inl e \<Rightarrow> Inl e
      | Inr tot' \<Rightarrow> sum_loop ops tot' numbers)"

definition calculate_average :: "'f float_ops \<Rightarrow> 'f number list \<Rightarrow> py_error + 'f number" where
  "calculate_average ops numbers =
     (case sum_loop ops (PyInt 0) numbers of
        Inl e \<Rightarrow> Inl e
      | Inr tot \<Rightarrow> py_truediv ops tot (int (length numbers)))"

text \<open>
  The specification's reading of the same function: the naive left-to-right sum
  \<open>((0 + n\<^sub>1) + n\<^sub>2) + \<dots>\<close>, a left fold of \<^verbatim>\<open>+\<close> from \<open>0\<close>, divided by the length.
\<close>

definition py_bind :: "py_error + 'a \<Rightarrow> ('a \<Rightarrow> py_error + 'b) \<Rightarrow> py_error + 'b" where
  "py_bind m f = (case m of Inl e \<Rightarrow> Inl e | Inr x \<Rightarrow> f x)"

definition naive_sum :: "'f float_ops \<Rightarrow> 'f number list \<Rightarrow> py_error + 'f number" where
  "naive_sum ops numbers =
     foldl (\<lambda>acc n. py_bind acc (\<lambda>t. py_add ops t n)) (Inr (PyInt 0)) numbers"

definition spec_average :: "'f float_ops \<Rightarrow> 'f number list \<Rightarrow> py_error + 'f number" where
  "spec_average ops numbers =
     py_bind (naive_sum ops numbers) (\<lambda>s. py_truediv ops s (int (length numbers)))"

text \<open>
  A stand-in for the float operations, exact on the rationals, to run the functions on
  concrete inputs: it overflows nowhere and rounds nothing.
\<close>

definition exact_ops :: "rat float_ops" where
  "exact_ops =
     \<lparr>float_add = (\<lambda>x y. x + y), float_div = (\<lambda>x y. x / y),
      int_to_float = (\<lambda>i. Some (of_int i)),
      int_true_div = (\<lambda>a b. Some (of_int a / of_int b))\<rparr>"

text \<open>
  A second stand-in, with the range of an IEEE double and still exact inside it: an int
  of magnitude \<open>2\<^sup>1\<^sup>0\<^sup>2\<^sup>4\<close> or more does not convert to a float, and a quotient of two ints
  of that magnitude is no float. Python raises \<^verbatim>\<open>OverflowError\<close> at every value this
  stand-in refuses (the largest double is below \<open>2\<^sup>1\<^sup>0\<^sup>2\<^sup>4\<close>).
\<close>

definition bounded_ops :: "rat float_ops" where
  "bounded_ops =
     \<lparr>float_add = (\<lambda>x y. x + y), float_div = (\<lambda>x y. x / y),
      int_to_float = (\<lambda>i. if \<bar>i\<bar> < 2 ^ 1024 then Some (of_int i) else None),
      int_true_div = (\<lambda>a b. if \<bar>of_int a / of_int b :: rat\<bar> < 2 ^ 1024
                              then Some (of_int a / of_int b) else None)\<rparr>"

section \<open>RecordFinder: \<^verbatim>\<open>find_user\<close>\<close>

text \<open>
  A record is a Python \<^verbatim>\<open>dict\<close> from field names to values, kept as an association
  list in insertion order. A Python list holds references, so the collection is a list
  of addresses and the dicts live in a store \<open>dicts\<close> from addresses to dicts: two
  addresses can hold equal dicts and still be two objects. \<^verbatim>\<open>user['id']\<close> raises
  \<^verbatim>\<open>KeyError\<close> on a dict without the key.
\<close>

type_synonym addr = nat

type_synonym 'v pydict = "(string \<times> 'v) list"

definition subscript :: "'v pydict \<Rightarrow> string \<Rightarrow> py_error + 'v" where
  "subscript d key = (case map_of d key of None \<Rightarrow> Inl KeyError | Some v \<Rightarrow> Inr v)"

text \<open>
  \<^verbatim>\<open>
  def find_user(users, id):
      for user in users:
          if user['id'] == id:
              return user
      return None
  \<close>
  The comparison \<^verbatim>\<open>==\<close> of the host language on identifiers is the parameter \<open>eq\<close>;
  nothing is assumed of it. The parameter \<^verbatim>\<open>id\<close> is \<open>ident\<close> here (\<open>id\<close> is a constant
  of HOL). The result is the address of the matched dict, or \<open>None\<close>.
\<close>

fun find_user ::
  "('v \<Rightarrow> 'v \<Rightarrow> bool) \<Rightarrow> (addr \<Rightarrow> 'v pydict) \<Rightarrow> addr list \<Rightarrow> 'v \<Rightarrow> py_error + addr option" where
  "find_user eq dicts [] ident = Inr None"
| "find_user eq dicts (user # users) ident =
     (case subscript (dicts user) ''id'' of
        Inl e \<Rightarrow> Inl e
      | Inr v \<Rightarrow> if eq v ident then Inr (Some user) else find_user eq dicts users ident)"

text \<open>
  The specification's words: a record \<^emph>\<open>exposes\<close> an \<^verbatim>\<open>id\<close> field, and it \<^emph>\<open>matches\<close>
  the identifier when its \<^verbatim>\<open>id\<close> field equals it.
\<close>

definition has_id :: "'v pydict \<Rightarrow> bool" where
  "has_id d = (case map_of d ''id'' of None \<Rightarrow> False | Some v \<Rightarrow> True)"

definition matches :: "('v \<Rightarrow> 'v \<Rightarrow> bool) \<Rightarrow> 'v pydict \<Rightarrow> 'v \<Rightarrow> bool" where
  "matches eq d ident = (case map_of d ''id'' of None \<Rightarrow> False | Some v \<Rightarrow> eq v ident)"

text \<open>
  A small store to run \<^verbatim>\<open>find_user\<close> on: the dicts at addresses \<open>1\<close> and \<open>3\<close> are equal
  and are two objects, and the dict at address \<open>2\<close> has no \<^verbatim>\<open>id\<close> field.
\<close>

datatype field = IntField int | StrField string

definition example_dicts :: "addr \<Rightarrow> field pydict" where
  "example_dicts a =
     (if a = 0 then [(''id'', IntField 1), (''name'', StrField ''a'')]
      else if a = 2 then [(''name'', StrField ''c'')]
      else [(''id'', IntField 2), (''name'', StrField ''b'')])"

section \<open>DataCleaner: \<^verbatim>\<open>process_data\<close>\<close>

text \<open>
  A Python \<^verbatim>\<open>str\<close> is a sequence of Unicode code points, here a list of naturals.
  \<open>is_space\<close> is the whitespace test of \<^verbatim>\<open>str.strip()\<close> (the code points for which
  \<^verbatim>\<open>str.isspace()\<close> holds), and \<open>strip\<close> drops the leading whitespace and then the
  trailing whitespace, as the method does when called without an argument.
\<close>

type_synonym py_str = "nat list"

definition is_space :: "nat \<Rightarrow> bool" where
  "is_space c =
     ((9 \<le> c \<and> c \<le> 13) \<or> (28 \<le> c \<and> c \<le> 32) \<or> c = 133 \<or> c = 160 \<or> c = 5760
      \<or> (8192 \<le> c \<and> c \<le> 8202) \<or> c = 8232 \<or> c = 8233 \<or> c = 8239 \<or> c = 8287
      \<or> c = 12288)"

definition strip :: "py_str \<Rightarrow> py_str" where
  "strip s = rev (dropWhile is_space (rev (dropWhile is_space s)))"

text \<open>ASCII text as a \<^verbatim>\<open>str\<close>, to write inputs down.\<close>

definition py_str_of :: "string \<Rightarrow> py_str" where
  "py_str_of cs = map of_char cs"

text \<open>
  An item is \<^verbatim>\<open>None\<close> or a \<^verbatim>\<open>str\<close>. \<^verbatim>\<open>item != None\<close> is \<open>ne_None\<close>: neither \<^verbatim>\<open>str\<close>
  nor \<^verbatim>\<open>None\<close> compares itself with the other type, so the comparison falls back to
  the default one, which is by identity, and a \<^verbatim>\<open>str\<close> differs from \<^verbatim>\<open>None\<close> whatever
  its content. \<^verbatim>\<open>item.strip()\<close> is \<open>item_strip\<close>: \<^verbatim>\<open>None\<close> has no such method.
\<close>

datatype item = PyNone | PyStr py_str

fun ne_None :: "item \<Rightarrow> bool" where
  "ne_None PyNone = False"
| "ne_None (PyStr s) = True"

fun item_strip :: "item \<Rightarrow> py_error + py_str" where
  "item_strip PyNone = Inl AttributeError"
| "item_strip (PyStr s) = Inr (strip s)"

text \<open>
  \<^verbatim>\<open>
  def process_data(data):
      result = []
      for item in data:
          if item != None:
              result.append(item.strip())
      return result
  \<close>
\<close>

fun process_loop :: "py_str list \<Rightarrow> item list \<Rightarrow> py_error + py_str list" where
  "process_loop result [] = Inr result"
| "process_loop result (item # data) =
     (if ne_None item then
        (case item_strip item of
           Inl e \<Rightarrow> Inl e
         | Inr t \<Rightarrow> process_loop (result @ [t]) data)
      else process_loop result data)"

definition process_data :: "item list \<Rightarrow> py_error + py_str list" where
  "process_data data = process_loop [] data"

text \<open>
  The specification's words: the non-absent items of a sequence, in their order, and a
  string with no whitespace at either end.
\<close>

fun present :: "item list \<Rightarrow> py_str list" where
  "present [] = []"
| "present (PyNone # data) = present data"
| "present (PyStr s # data) = s # present data"

definition is_trimmed :: "py_str \<Rightarrow> bool" where
  "is_trimmed t = (t = [] \<or> (\<not> is_space (hd t) \<and> \<not> is_space (last t)))"

subsection \<open>\<^verbatim>\<open>process_data\<close> on other objects\<close>

text \<open>
  Nothing in \<^verbatim>\<open>process_data\<close> restricts the items to \<^verbatim>\<open>None\<close> and \<^verbatim>\<open>str\<close>, and line 19,
  \<^verbatim>\<open>if item != None\<close>, asks the item: \<^verbatim>\<open>!=\<close> calls the \<^verbatim>\<open>__ne__\<close> method of the item's
  class. To see what kind of test that is, the same function is given here on a wider
  type of items: \<^verbatim>\<open>None\<close>, a plain \<^verbatim>\<open>str\<close>, an \<^verbatim>\<open>int\<close>, and an instance of a subclass
  of \<^verbatim>\<open>str\<close> that overrides \<^verbatim>\<open>__ne__\<close>, with the answer its \<^verbatim>\<open>__ne__\<close> gives for \<^verbatim>\<open>None\<close>
  and its text.
  \<^item> \<open>ne_None_obj\<close> is \<^verbatim>\<open>item != None\<close>: \<^verbatim>\<open>str\<close> and \<^verbatim>\<open>int\<close> leave the comparison with
    \<^verbatim>\<open>None\<close> to the default, which is by identity; the subclass answers for itself.
  \<^item> \<open>is_not_None\<close> is the identity test \<^verbatim>\<open>item is not None\<close>, which the function does
    not make.
  \<^item> \<open>truthy_obj\<close> is the truth value of an item, which the function does not consult.
  \<^item> \<open>strip_obj\<close> is \<^verbatim>\<open>item.strip()\<close>: \<^verbatim>\<open>None\<close> and \<^verbatim>\<open>int\<close> have no such method, and the
    subclass inherits that of \<^verbatim>\<open>str\<close>.
\<close>

datatype py_object = ONone | OStr py_str | OInt int | OStrSub bool py_str

fun ne_None_obj :: "py_object \<Rightarrow> bool" where
  "ne_None_obj ONone = False"
| "ne_None_obj (OStr s) = True"
| "ne_None_obj (OInt n) = True"
| "ne_None_obj (OStrSub answer s) = answer"

fun is_not_None :: "py_object \<Rightarrow> bool" where
  "is_not_None ONone = False"
| "is_not_None (OStr s) = True"
| "is_not_None (OInt n) = True"
| "is_not_None (OStrSub answer s) = True"

fun truthy_obj :: "py_object \<Rightarrow> bool" where
  "truthy_obj ONone = False"
| "truthy_obj (OStr s) = (s \<noteq> [])"
| "truthy_obj (OInt n) = (n \<noteq> 0)"
| "truthy_obj (OStrSub answer s) = (s \<noteq> [])"

fun strip_obj :: "py_object \<Rightarrow> py_error + py_str" where
  "strip_obj ONone = Inl AttributeError"
| "strip_obj (OStr s) = Inr (strip s)"
| "strip_obj (OInt n) = Inl AttributeError"
| "strip_obj (OStrSub answer s) = Inr (strip s)"

fun process_loop_obj :: "py_str list \<Rightarrow> py_object list \<Rightarrow> py_error + py_str list" where
  "process_loop_obj result [] = Inr result"
| "process_loop_obj result (item # data) =
     (if ne_None_obj item then
        (case strip_obj item of
           Inl e \<Rightarrow> Inl e
         | Inr t \<Rightarrow> process_loop_obj (result @ [t]) data)
      else process_loop_obj result data)"

definition process_data_obj :: "py_object list \<Rightarrow> py_error + py_str list" where
  "process_data_obj data = process_loop_obj [] data"

text \<open>An item that is \<^verbatim>\<open>None\<close> or a plain \<^verbatim>\<open>str\<close>, among the objects.\<close>

fun of_item :: "item \<Rightarrow> py_object" where
  "of_item PyNone = ONone"
| "of_item (PyStr s) = OStr s"

section \<open>The three functions on a store\<close>

text \<open>
  To say what a call does to its arguments, the lists are objects in a store: \<open>cells\<close>
  maps the address of a list to its elements, and \<open>next_free\<close> is the first address not
  yet in use, the one the next allocation takes. Numbers, strings and \<^verbatim>\<open>None\<close> are
  immutable and stand in the lists as values; the dicts of \<^verbatim>\<open>find_user\<close> are objects of
  their own, in \<open>dict_cells\<close>, and the list of users holds their addresses.
\<close>

record 'a store =
  cells :: "addr \<Rightarrow> 'a list"
  next_free :: addr

record 'v user_store = "addr store" +
  dict_cells :: "addr \<Rightarrow> 'v pydict"

text \<open>\<^verbatim>\<open>[]\<close> allocates an empty list; \<^verbatim>\<open>l.append(x)\<close> writes to the list at its address.\<close>

definition alloc_list :: "'a store \<Rightarrow> addr \<times> 'a store" where
  "alloc_list s =
     (next_free s, s\<lparr>cells := (cells s)(next_free s := []), next_free := Suc (next_free s)\<rparr>)"

definition list_append :: "addr \<Rightarrow> 'a \<Rightarrow> 'a store \<Rightarrow> 'a store" where
  "list_append a x s = s\<lparr>cells := (cells s)(a := cells s a @ [x])\<rparr>"

text \<open>
  A \<^verbatim>\<open>for\<close> loop over a list reads the list object at every step: it holds an index
  \<open>i\<close>, stops when \<open>i\<close> has reached the current length and takes the element at \<open>i\<close>
  otherwise. The loops of \<^verbatim>\<open>calculate_average\<close> and \<^verbatim>\<open>find_user\<close> write nothing to the
  store, so the index runs up to a length that stays the same.
\<close>

function sum_loop_st ::
  "'f float_ops \<Rightarrow> addr \<Rightarrow> nat \<Rightarrow> 'f number \<Rightarrow> 'f number store
     \<Rightarrow> (py_error + 'f number) \<times> 'f number store" where
  "sum_loop_st ops numbers i tot s =
     (if i < length (cells s numbers) then
        (case py_add ops tot (cells s numbers ! i) of
           Inl e \<Rightarrow> (Inl e, s)
         | Inr tot' \<Rightarrow> sum_loop_st ops numbers (Suc i) tot' s)
      else (Inr tot, s))"
  by pat_completeness auto
termination
  by (relation "measure (\<lambda>(ops, numbers, i, tot, s). length (cells s numbers) - i)") auto

declare sum_loop_st.simps [simp del]

definition calculate_average_st ::
  "'f float_ops \<Rightarrow> addr \<Rightarrow> 'f number store \<Rightarrow> (py_error + 'f number) \<times> 'f number store" where
  "calculate_average_st ops numbers s =
     (case sum_loop_st ops numbers 0 (PyInt 0) s of
        (Inl e, s') \<Rightarrow> (Inl e, s')
      | (Inr tot, s') \<Rightarrow> (py_truediv ops tot (int (length (cells s' numbers))), s'))"

function find_loop_st ::
  "('v \<Rightarrow> 'v \<Rightarrow> bool) \<Rightarrow> addr \<Rightarrow> nat \<Rightarrow> 'v \<Rightarrow> 'v user_store
     \<Rightarrow> (py_error + addr option) \<times> 'v user_store" where
  "find_loop_st eq users i ident s =
     (if i < length (cells s users) then
        (case subscript (dict_cells s (cells s users ! i)) ''id'' of
           Inl e \<Rightarrow> (Inl e, s)
         | Inr v \<Rightarrow>
             if eq v ident then (Inr (Some (cells s users ! i)), s)
             else find_loop_st eq users (Suc i) ident s)
      else (Inr None, s))"
  by pat_completeness auto
termination
  by (relation "measure (\<lambda>(eq, users, i, ident, s). length (cells s users) - i)") auto

declare find_loop_st.simps [simp del]

definition find_user_st ::
  "('v \<Rightarrow> 'v \<Rightarrow> bool) \<Rightarrow> addr \<Rightarrow> 'v \<Rightarrow> 'v user_store
     \<Rightarrow> (py_error + addr option) \<times> 'v user_store" where
  "find_user_st eq users ident s = find_loop_st eq users 0 ident s"

text \<open>
  What a result of \<^verbatim>\<open>find_user\<close> refers to: the dict at the address returned.
\<close>

definition deref ::
  "(addr \<Rightarrow> 'v pydict) \<Rightarrow> py_error + addr option \<Rightarrow> py_error + 'v pydict option" where
  "deref dicts r =
     (case r of
        Inl e \<Rightarrow> Inl e
      | Inr None \<Rightarrow> Inr None
      | Inr (Some a) \<Rightarrow> Inr (Some (dicts a)))"

text \<open>
  The loop of \<^verbatim>\<open>process_data\<close> appends to the list \<^verbatim>\<open>result\<close> while it reads the list
  \<^verbatim>\<open>data\<close>. Were the two the same object the loop could go on for ever, so it is a
  partial function: \<open>None\<close> stands for a loop that does not return.
\<close>

partial_function (option) process_loop_st ::
  "addr \<Rightarrow> addr \<Rightarrow> nat \<Rightarrow> item store \<Rightarrow> ((py_error + unit) \<times> item store) option" where
  "process_loop_st data result i s =
     (if i < length (cells s data) then
        (if ne_None (cells s data ! i) then
           (case item_strip (cells s data ! i) of
              Inl e \<Rightarrow> Some (Inl e, s)
            | Inr t \<Rightarrow> process_loop_st data result (Suc i) (list_append result (PyStr t) s))
         else process_loop_st data result (Suc i) s)
      else Some (Inr (), s))"

definition process_data_st ::
  "addr \<Rightarrow> item store \<Rightarrow> ((py_error + addr) \<times> item store) option" where
  "process_data_st data s =
     (case alloc_list s of
        (result, s0) \<Rightarrow>
          (case process_loop_st data result 0 s0 of
             None \<Rightarrow> None
           | Some (Inl e, s') \<Rightarrow> Some (Inl e, s')
           | Some (Inr u, s') \<Rightarrow> Some (Inr result, s')))"

text \<open>Stores to run the three functions on.\<close>

definition example_numbers :: "rat number store" where
  "example_numbers =
     \<lparr>cells = (\<lambda>a. if a = 0 then [PyInt 2, PyInt 4, PyInt 6] else []), next_free = 1\<rparr>"

definition example_users :: "field user_store" where
  "example_users =
     \<lparr>cells = (\<lambda>a. if a = 4 then [0, 1, 3] else []), next_free = 5,
      dict_cells = example_dicts\<rparr>"

definition example_items :: "item store" where
  "example_items =
     \<lparr>cells = (\<lambda>a. if a = 0 then [PyStr (py_str_of '' a ''), PyNone] else []),
      next_free = 1\<rparr>"

definition example_items' :: "item store" where
  "example_items' =
     \<lparr>cells = (\<lambda>a. if a = 3 then [PyStr (py_str_of '' a ''), PyNone] else [PyNone]),
      next_free = 7\<rparr>"

definition example_numbers' :: "rat number store" where
  "example_numbers' =
     \<lparr>cells = (\<lambda>a. if a = 2 then [PyInt 2, PyInt 4, PyInt 6] else [PyInt 1]), next_free = 3\<rparr>"

definition example_users' :: "field user_store" where
  "example_users' =
     \<lparr>cells = (\<lambda>a. if a = 9 then [0, 3, 1] else [2]), next_free = 10,
      dict_cells = (\<lambda>a. if a = 2 then [] else example_dicts a)\<rparr>"

section \<open>Properties of the Averager\<close>

lemma foldl_bind_Inl:
  "foldl (\<lambda>acc n. py_bind acc (\<lambda>t. py_add ops t n)) (Inl e) numbers = Inl e"
  by (induction numbers) (simp_all add: py_bind_def)

lemma sum_loop_foldl:
  "sum_loop ops tot numbers =
     foldl (\<lambda>acc n. py_bind acc (\<lambda>t. py_add ops t n)) (Inr tot) numbers"
proof (induction numbers arbitrary: tot)
  case Nil
  show ?case by simp
next
  case (Cons n numbers)
  show ?case
  proof (cases "py_add ops tot n")
    case (Inl e)
    then show ?thesis
      using foldl_bind_Inl [of ops e numbers] by (simp add: py_bind_def)
  next
    case (Inr t)
    then show ?thesis by (simp add: py_bind_def Cons.IH)
  qed
qed

lemma sum_loop_not_ZeroDivisionError:
  "sum_loop ops tot numbers \<noteq> Inl ZeroDivisionError"
proof (induction numbers arbitrary: tot)
  case Nil
  show ?case by simp
next
  case (Cons n numbers)
  have "py_add ops tot n \<noteq> Inl ZeroDivisionError"
    by (cases tot; cases n) (simp_all split: option.splits)
  with Cons.IH show ?case
    by (cases "py_add ops tot n") simp_all
qed

lemma sum_loop_floats:
  "sum_loop ops (PyFloat acc) (map PyFloat fs) = Inr (PyFloat (foldl (float_add ops) acc fs))"
  by (induction fs arbitrary: acc) simp_all

lemma sum_loop_ints:
  "sum_loop ops (PyInt acc) (map PyInt ns) = Inr (PyInt (acc + sum_list ns))"
  by (induction ns arbitrary: acc) (simp_all add: add.assoc)

lemma sum_loop_errors:
  "sum_loop ops tot numbers = Inl e \<Longrightarrow> e = OverflowError"
proof (induction numbers arbitrary: tot)
  case Nil
  then show ?case by simp
next
  case (Cons n numbers)
  show ?case
  proof (cases "py_add ops tot n")
    case (Inl e')
    then have "e' = OverflowError"
      by (cases tot; cases n) (auto split: option.splits)
    with Inl Cons.prems show ?thesis by simp
  next
    case (Inr t)
    with Cons.prems have "sum_loop ops t numbers = Inl e" by simp
    then show ?thesis by (rule Cons.IH)
  qed
qed

lemma returns_float_or_overflows:
  assumes "numbers \<noteq> []"
  shows "(\<exists>q. calculate_average ops numbers = Inr (PyFloat q))
       \<or> calculate_average ops numbers = Inl OverflowError"
proof (cases "sum_loop ops (PyInt 0) numbers")
  case (Inl e)
  then have "e = OverflowError" by (rule sum_loop_errors)
  with Inl show ?thesis by (simp add: calculate_average_def)
next
  case (Inr t)
  have "int (length numbers) \<noteq> 0" using assms by simp
  with Inr show ?thesis
    by (cases t) (simp_all add: calculate_average_def split: option.splits)
qed

text \<open>
  C4: \<^verbatim>\<open>calculate_average([])\<close> raises \<^verbatim>\<open>ZeroDivisionError\<close>, and the exception is
  the result of the call: nothing in the function catches it. At the empty list
  \<^verbatim>\<open>total\<close> is still the int \<open>0\<close> and \<^verbatim>\<open>len(numbers)\<close> is \<open>0\<close>, whatever the float
  operations are.
\<close>

theorem calculate_average_empty:
  "calculate_average ops [] = Inl ZeroDivisionError"
  by (simp add: calculate_average_def)

text \<open>
  C1, as amended: on a non-empty sequence \<^verbatim>\<open>calculate_average\<close> either returns a float or
  raises \<^verbatim>\<open>OverflowError\<close>, and it does the one or the other exactly as the naive
  left-to-right sum of the elements divided by the length does, computed in the host
  arithmetic: the loop adds in sequence order from \<open>0\<close>, and the division by the length
  never raises \<^verbatim>\<open>ZeroDivisionError\<close>. On a sequence of floats it returns the float
  \<open>(((0.0 + x\<^sub>1) + x\<^sub>2) + \<dots>) / n\<close>, with \<open>0.0\<close> and \<open>n\<close> the floats of the ints \<open>0\<close> and of the
  length; on a sequence of ints it returns the true quotient of the exact sum by the
  length, where that quotient is a float.
\<close>

theorem calculate_average_mean_or_overflow:
  assumes "numbers \<noteq> []"
  shows "((\<exists>q. calculate_average ops numbers = Inr (PyFloat q))
          \<or> calculate_average ops numbers = Inl OverflowError)
       \<and> calculate_average ops numbers = spec_average ops numbers
       \<and> calculate_average ops numbers \<noteq> Inl ZeroDivisionError
       \<and> (\<forall>fs z l. numbers = map PyFloat fs \<and> int_to_float ops 0 = Some z
              \<and> int_to_float ops (int (length numbers)) = Some l \<longrightarrow>
            calculate_average ops numbers
              = Inr (PyFloat (float_div ops (foldl (float_add ops) z fs) l)))
       \<and> (\<forall>ns q. numbers = map PyInt ns
              \<and> int_true_div ops (sum_list ns) (int (length numbers)) = Some q \<longrightarrow>
            calculate_average ops numbers = Inr (PyFloat q))"
proof (intro conjI allI impI)
  show "(\<exists>q. calculate_average ops numbers = Inr (PyFloat q))
       \<or> calculate_average ops numbers = Inl OverflowError"
    using assms by (rule returns_float_or_overflows)
next
  show "calculate_average ops numbers = spec_average ops numbers"
    by (simp add: calculate_average_def spec_average_def naive_sum_def py_bind_def
        sum_loop_foldl)
next
  have len: "int (length numbers) \<noteq> 0"
    using assms by simp
  show "calculate_average ops numbers \<noteq> Inl ZeroDivisionError"
  proof (cases "sum_loop ops (PyInt 0) numbers")
    case (Inl e)
    then show ?thesis
      using sum_loop_not_ZeroDivisionError [of ops "PyInt 0" numbers]
      by (simp add: calculate_average_def)
  next
    case (Inr t)
    then show ?thesis
      using len by (cases t) (simp_all add: calculate_average_def split: option.splits)
  qed
next
  fix fs z l
  assume a: "numbers = map PyFloat fs \<and> int_to_float ops 0 = Some z
              \<and> int_to_float ops (int (length numbers)) = Some l"
  then have n: "numbers = map PyFloat fs" and z: "int_to_float ops 0 = Some z"
    and l: "int_to_float ops (int (length fs)) = Some l"
    by auto
  from n assms obtain x xs where fs: "fs = x # xs"
    by (cases fs) auto
  have "sum_loop ops (PyInt 0) numbers = Inr (PyFloat (foldl (float_add ops) z fs))"
    using n z fs by (simp add: sum_loop_floats)
  with n l fs show "calculate_average ops numbers
              = Inr (PyFloat (float_div ops (foldl (float_add ops) z fs) l))"
    by (simp add: calculate_average_def)
next
  fix ns q
  assume a: "numbers = map PyInt ns
              \<and> int_true_div ops (sum_list ns) (int (length numbers)) = Some q"
  then have n: "numbers = map PyInt ns"
    and q: "int_true_div ops (sum_list ns) (int (length ns)) = Some q"
    by auto
  from n assms have ne: "ns \<noteq> []"
    by auto
  have "sum_loop ops (PyInt 0) numbers = Inr (PyInt (sum_list ns))"
    using n sum_loop_ints [of ops 0 ns] by simp
  with n q ne show "calculate_average ops numbers = Inr (PyFloat q)"
    by (simp add: calculate_average_def)
qed

theorem calculate_average_mean_or_overflow_witness:
  "[PyInt 2, PyInt 4, PyInt 6] \<noteq> ([] :: rat number list)
   \<and> calculate_average exact_ops [PyInt 2, PyInt 4, PyInt 6] = Inr (PyFloat 4)
   \<and> spec_average exact_ops [PyInt 2, PyInt 4, PyInt 6] = Inr (PyFloat 4)
   \<and> int_true_div exact_ops (sum_list [2, 4, 6]) (int (length [PyInt 2, PyInt 4, PyInt 6 :: rat number]))
       = Some 4
   \<and> calculate_average exact_ops [PyFloat (1 / 2), PyFloat (3 / 2)] = Inr (PyFloat 1)
   \<and> calculate_average exact_ops [PyFloat (1 / 2), PyInt 1] = Inr (PyFloat (3 / 4))
   \<and> calculate_average bounded_ops [PyFloat 1, PyInt (2 ^ 1024)] = Inl OverflowError
   \<and> spec_average bounded_ops [PyFloat 1, PyInt (2 ^ 1024)] = Inl OverflowError"
proof -
  let ?ints = "[PyInt 2, PyInt 4, PyInt 6] :: rat number list"
  let ?floats = "[PyFloat (1 / 2), PyFloat (3 / 2)] :: rat number list"
  let ?large = "[PyFloat 1, PyInt (2 ^ 1024)] :: rat number list"
  have ne: "?ints \<noteq> []" and ne': "?floats \<noteq> []" and ne'': "?large \<noteq> []"
    by simp_all
  note ints = calculate_average_mean_or_overflow [OF ne, of exact_ops, THEN conjunct2]
  note floats = calculate_average_mean_or_overflow [OF ne', of exact_ops, THEN conjunct2]
  note large = calculate_average_mean_or_overflow [OF ne'', of bounded_ops, THEN conjunct2]
  have q: "int_true_div exact_ops (sum_list [2, 4, 6]) (int (length ?ints)) = Some 4"
    by (simp add: exact_ops_def)
  have m: "?ints = map PyInt [2, 4, 6]"
    by simp
  from ints [THEN conjunct2, THEN conjunct2, THEN conjunct2, rule_format, OF conjI, OF m q]
  have 1: "calculate_average exact_ops ?ints = Inr (PyFloat 4)" .
  with ints [THEN conjunct1] have 2: "spec_average exact_ops ?ints = Inr (PyFloat 4)"
    by simp
  have z: "int_to_float exact_ops 0 = Some 0"
    and l: "int_to_float exact_ops (int (length ?floats)) = Some 2"
    and f: "?floats = map PyFloat [1 / 2, 3 / 2]"
    by (simp_all add: exact_ops_def)
  from floats [THEN conjunct2, THEN conjunct2, THEN conjunct1, rule_format, OF conjI, OF f conjI, OF z l]
  have 3: "calculate_average exact_ops ?floats = Inr (PyFloat 1)"
    by (simp add: exact_ops_def)
  have 4: "calculate_average exact_ops [PyFloat (1 / 2), PyInt 1] = Inr (PyFloat (3 / 4))"
    by (simp add: calculate_average_def exact_ops_def)
  have 5: "calculate_average bounded_ops ?large = Inl OverflowError"
    by (simp add: calculate_average_def bounded_ops_def)
  with large [THEN conjunct1] have 6: "spec_average bounded_ops ?large = Inl OverflowError"
    by simp
  from ne 1 2 q 3 4 5 6 show ?thesis
    by (intro conjI)
qed

text \<open>
  C1 as it was stated, that \<^verbatim>\<open>calculate_average\<close> returns the mean of every non-empty
  sequence of numbers, fails at the one-element sequence \<^verbatim>\<open>[2**1024]\<close>: the loop leaves
  \<^verbatim>\<open>total = 2**1024\<close>, and \<^verbatim>\<open>total / 1\<close> raises \<^verbatim>\<open>OverflowError\<close>, the quotient being too
  large for a float.
\<close>

theorem calculate_average_returns_counterexample:
  "[PyInt (2 ^ 1024)] \<noteq> ([] :: rat number list)
   \<and> calculate_average bounded_ops [PyInt (2 ^ 1024)] = Inl OverflowError"
  by (simp add: calculate_average_def bounded_ops_def)

section \<open>Properties of the RecordFinder\<close>

lemma find_user_hit:
  "matches eq (dicts u) ident \<Longrightarrow> find_user eq dicts (u # rest) ident = Inr (Some u)"
  by (simp add: matches_def subscript_def split: option.splits)

lemma find_user_pass:
  "has_id (dicts u) \<Longrightarrow> \<not> matches eq (dicts u) ident \<Longrightarrow>
   find_user eq dicts (u # rest) ident = find_user eq dicts rest ident"
  by (simp add: has_id_def matches_def subscript_def split: option.splits)

lemma find_user_no_id:
  "\<not> has_id (dicts u) \<Longrightarrow> find_user eq dicts (u # rest) ident = Inl KeyError"
  by (simp add: has_id_def subscript_def split: option.splits)

lemma matches_has_id: "matches eq d ident \<Longrightarrow> has_id d"
  by (simp add: has_id_def matches_def split: option.splits)

lemma find_user_at_first_match:
  assumes "i < length users"
    and "matches eq (dicts (users ! i)) ident"
    and "\<forall>j<i. has_id (dicts (users ! j)) \<and> \<not> matches eq (dicts (users ! j)) ident"
  shows "find_user eq dicts users ident = Inr (Some (users ! i))"
  using assms
proof (induction users arbitrary: i)
  case Nil
  then show ?case by simp
next
  case (Cons u users)
  show ?case
  proof (cases i)
    case 0
    with Cons.prems show ?thesis by (simp add: find_user_hit del: find_user.simps)
  next
    case (Suc k)
    from Cons.prems(3) Suc have u: "has_id (dicts u)" "\<not> matches eq (dicts u) ident"
      by auto
    have rest: "\<forall>j<k. has_id (dicts (users ! j)) \<and> \<not> matches eq (dicts (users ! j)) ident"
    proof (intro allI impI)
      fix j assume "j < k"
      then have "Suc j < i" using Suc by simp
      with Cons.prems(3) show "has_id (dicts (users ! j)) \<and> \<not> matches eq (dicts (users ! j)) ident"
        by fastforce
    qed
    from Cons.prems(1,2) Suc have "k < length users" "matches eq (dicts (users ! k)) ident"
      by simp_all
    from Cons.IH [OF this rest] u Suc show ?thesis
      by (simp add: find_user_pass del: find_user.simps)
  qed
qed

lemma find_user_none_match:
  assumes "\<forall>u\<in>set users. has_id (dicts u) \<and> \<not> matches eq (dicts u) ident"
  shows "find_user eq dicts users ident = Inr None"
  using assms by (induction users) (simp_all add: find_user_pass del: find_user.simps(2))

lemma first_match_index:
  assumes "\<exists>u\<in>set users. P u"
  shows "\<exists>i<length users. P (users ! i) \<and> (\<forall>j<i. \<not> P (users ! j))"
  using assms
proof (induction users)
  case Nil
  then show ?case by simp
next
  case (Cons u users)
  show ?case
  proof (cases "P u")
    case True
    then show ?thesis by (intro exI [of _ 0]) simp
  next
    case False
    with Cons.prems have "\<exists>u\<in>set users. P u" by simp
    from Cons.IH [OF this] obtain i where "i < length users" "P (users ! i)"
      "\<forall>j<i. \<not> P (users ! j)" by blast
    with False show ?thesis
      by (intro exI [of _ "Suc i"]) (auto simp: less_Suc_eq_0_disj)
  qed
qed

lemma find_user_Some_D:
  "find_user eq dicts users ident = Inr (Some a) \<Longrightarrow>
   \<exists>i<length users. a = users ! i \<and> matches eq (dicts a) ident
      \<and> (\<forall>j<i. has_id (dicts (users ! j)) \<and> \<not> matches eq (dicts (users ! j)) ident)"
proof (induction users)
  case Nil
  then show ?case by simp
next
  case (Cons u users)
  show ?case
  proof (cases "matches eq (dicts u) ident")
    case True
    with Cons.prems have "a = u" by (simp add: find_user_hit del: find_user.simps)
    with True show ?thesis by auto
  next
    case False
    show ?thesis
    proof (cases "has_id (dicts u)")
      case no: False
      with Cons.prems show ?thesis by (simp add: find_user_no_id del: find_user.simps)
    next
      case True
      with False Cons.prems have "find_user eq dicts users ident = Inr (Some a)"
        by (simp add: find_user_pass del: find_user.simps)
      from Cons.IH [OF this] obtain i where i: "i < length users" "a = users ! i"
        "matches eq (dicts a) ident"
        "\<forall>j<i. has_id (dicts (users ! j)) \<and> \<not> matches eq (dicts (users ! j)) ident"
        by blast
      have "\<forall>j<Suc i. has_id (dicts ((u # users) ! j)) \<and> \<not> matches eq (dicts ((u # users) ! j)) ident"
        using i(4) True False by (auto simp: less_Suc_eq_0_disj)
      with i(1,2,3) show ?thesis
        by (intro exI [of _ "Suc i"]) simp
    qed
  qed
qed


text \<open>
  C2: in a collection whose records all expose an \<^verbatim>\<open>id\<close> field, \<^verbatim>\<open>find_user\<close> returns
  the first record, in iteration order, whose \<^verbatim>\<open>id\<close> equals the identifier (the record at
  the least matching index, so the first of several records with the same \<^verbatim>\<open>id\<close>), and
  \<open>None\<close> when no record matches, in particular on the empty collection.
\<close>

theorem find_user_first_or_none:
  assumes "\<forall>u\<in>set users. has_id (dicts u)"
  shows "((\<exists>u\<in>set users. matches eq (dicts u) ident) \<longrightarrow>
           (\<exists>i<length users. matches eq (dicts (users ! i)) ident
              \<and> (\<forall>j<i. \<not> matches eq (dicts (users ! j)) ident)
              \<and> find_user eq dicts users ident = Inr (Some (users ! i))))
       \<and> ((\<forall>u\<in>set users. \<not> matches eq (dicts u) ident) \<longrightarrow>
           find_user eq dicts users ident = Inr None)
       \<and> find_user eq dicts [] ident = Inr None"
proof (intro conjI impI)
  assume "\<exists>u\<in>set users. matches eq (dicts u) ident"
  from first_match_index [of users "\<lambda>u. matches eq (dicts u) ident", OF this]
  obtain i where i: "i < length users" "matches eq (dicts (users ! i)) ident"
    "\<forall>j<i. \<not> matches eq (dicts (users ! j)) ident" by blast
  have "\<forall>j<i. has_id (dicts (users ! j)) \<and> \<not> matches eq (dicts (users ! j)) ident"
    using i(1,3) assms by simp
  from find_user_at_first_match [OF i(1,2) this] i
  show "\<exists>i<length users. matches eq (dicts (users ! i)) ident
              \<and> (\<forall>j<i. \<not> matches eq (dicts (users ! j)) ident)
              \<and> find_user eq dicts users ident = Inr (Some (users ! i))"
    by blast
next
  assume "\<forall>u\<in>set users. \<not> matches eq (dicts u) ident"
  with assms show "find_user eq dicts users ident = Inr None"
    by (simp add: find_user_none_match)
next
  show "find_user eq dicts [] ident = Inr None" by simp
qed


theorem find_user_first_or_none_witness:
  "has_id (example_dicts 0) \<and> has_id (example_dicts 1) \<and> has_id (example_dicts 3)
   \<and> matches (=) (example_dicts 1) (IntField 2) \<and> matches (=) (example_dicts 3) (IntField 2)
   \<and> find_user (=) example_dicts [0, 1, 3] (IntField 2) = Inr (Some 1)
   \<and> find_user (=) example_dicts [0, 1, 3] (IntField 5) = Inr None"
proof -
  have ids: "\<forall>u\<in>set [0, 1, 3]. has_id (example_dicts u)"
    by (simp add: has_id_def example_dicts_def)
  have hit: "find_user (=) example_dicts [0, 1, 3] (IntField 2) = Inr (Some 1)"
    by (simp add: subscript_def example_dicts_def)
  have miss: "\<forall>u\<in>set [0, 1, 3]. \<not> matches (=) (example_dicts u) (IntField 5)"
    by (simp add: matches_def example_dicts_def)
  from find_user_first_or_none [OF ids, of "(=)" "IntField 5"] miss
  have "find_user (=) example_dicts [0, 1, 3] (IntField 5) = Inr None"
    by blast
  with ids hit show ?thesis
    by (simp add: matches_def example_dicts_def)
qed

text \<open>
  C7: a successful \<^verbatim>\<open>find_user\<close> returns one of the references the collection holds:
  the result is the address at some index of the input list, the object itself and not
  another object with an equal content (no dict is created by the call).
\<close>

theorem find_user_returns_alias:
  assumes "find_user eq dicts users ident = Inr (Some a)"
  shows "\<exists>i<length users. a = users ! i \<and> matches eq (dicts a) ident"
  using find_user_Some_D [OF assms] by blast

theorem find_user_returns_alias_witness:
  "find_user (=) example_dicts [0, 3] (IntField 2) = Inr (Some 3)
   \<and> example_dicts 1 = example_dicts 3
   \<and> (\<exists>i<length [0, 3 :: addr]. (3 :: addr) = [0, 3] ! i)
   \<and> find_user (=) example_dicts [0, 3] (IntField 2) \<noteq> Inr (Some 1)"
proof -
  have run: "find_user (=) example_dicts [0, 3] (IntField 2) = Inr (Some 3)"
    by (simp add: subscript_def example_dicts_def)
  from find_user_returns_alias [OF run]
  have "\<exists>i<length [0, 3 :: addr]. (3 :: addr) = [0, 3] ! i"
    by blast
  with run show ?thesis
    by (simp add: example_dicts_def)
qed

text \<open>
  C8: when the record at index \<open>i\<close> is the first whose \<^verbatim>\<open>id\<close> equals the identifier and
  every record before it exposes an \<^verbatim>\<open>id\<close> field, \<^verbatim>\<open>find_user\<close> returns that record, and
  it returns the same with any records at all after index \<open>i\<close>: the scan stops at the
  match, so a later record without an \<^verbatim>\<open>id\<close> field raises nothing.
\<close>

theorem find_user_stops_at_first_match:
  assumes "i < length users"
    and "matches eq (dicts (users ! i)) ident"
    and "\<forall>j<i. has_id (dicts (users ! j)) \<and> \<not> matches eq (dicts (users ! j)) ident"
  shows "find_user eq dicts users ident = Inr (Some (users ! i))
       \<and> (\<forall>later. find_user eq dicts (take (Suc i) users @ later) ident = Inr (Some (users ! i)))"
proof (intro conjI allI)
  show "find_user eq dicts users ident = Inr (Some (users ! i))"
    using assms by (rule find_user_at_first_match)
next
  fix later
  let ?us = "take (Suc i) users @ later"
  have len: "i < length ?us"
    using assms(1) by simp
  have same: "\<forall>j\<le>i. ?us ! j = users ! j"
    using assms(1) by (simp add: nth_append)
  have hit: "matches eq (dicts (?us ! i)) ident"
    using assms(2) same by simp
  have pre: "\<forall>j<i. has_id (dicts (?us ! j)) \<and> \<not> matches eq (dicts (?us ! j)) ident"
    using assms(3) same by simp
  from find_user_at_first_match [OF len hit pre] same
  show "find_user eq dicts ?us ident = Inr (Some (users ! i))"
    by simp
qed

theorem find_user_stops_at_first_match_witness:
  "(1 :: nat) < length [0, 1, 2 :: addr]
   \<and> matches (=) (example_dicts ([0, 1, 2] ! 1)) (IntField 2)
   \<and> has_id (example_dicts ([0, 1, 2] ! 0))
   \<and> \<not> matches (=) (example_dicts ([0, 1, 2] ! 0)) (IntField 2)
   \<and> \<not> has_id (example_dicts 2)
   \<and> find_user (=) example_dicts [0, 1, 2] (IntField 2) = Inr (Some 1)
   \<and> find_user (=) example_dicts [0, 1, 2, 2, 2] (IntField 2) = Inr (Some 1)"
proof -
  have len: "(1 :: nat) < length [0, 1, 2 :: addr]"
    by simp
  have hit: "matches (=) (example_dicts ([0, 1, 2] ! 1)) (IntField 2)"
    by (simp add: matches_def example_dicts_def)
  have pre: "\<forall>j<1. has_id (example_dicts ([0, 1, 2] ! j))
               \<and> \<not> matches (=) (example_dicts ([0, 1, 2] ! j)) (IntField 2)"
    by (simp add: has_id_def matches_def example_dicts_def)
  from find_user_stops_at_first_match [OF len hit pre]
  have "find_user (=) example_dicts [0, 1, 2] (IntField 2) = Inr (Some 1)"
    and "find_user (=) example_dicts (take (Suc 1) [0, 1, 2] @ [2, 2, 2]) (IntField 2)
         = Inr (Some 1)"
    by simp_all
  with len hit pre show ?thesis
    by (simp add: has_id_def example_dicts_def)
qed

text \<open>
  C9: when a record without an \<^verbatim>\<open>id\<close> field stands at an index before which no record
  matches, \<^verbatim>\<open>find_user\<close> raises \<^verbatim>\<open>KeyError\<close>: it neither returns \<open>None\<close> nor reaches a
  matching record further on.
\<close>

theorem find_user_missing_id_raises:
  assumes "i < length users"
    and "\<not> has_id (dicts (users ! i))"
    and "\<forall>j<i. \<not> matches eq (dicts (users ! j)) ident"
  shows "find_user eq dicts users ident = Inl KeyError"
  using assms
proof (induction users arbitrary: i)
  case Nil
  then show ?case by simp
next
  case (Cons u users)
  show ?case
  proof (cases "has_id (dicts u)")
    case False
    then show ?thesis by (simp add: find_user_no_id del: find_user.simps)
  next
    case True
    then have "i \<noteq> 0" using Cons.prems(2) by (cases i) auto
    then obtain k where k: "i = Suc k" by (cases i) auto
    from Cons.prems(3) k have nm: "\<not> matches eq (dicts u) ident" by auto
    have rest: "\<forall>j<k. \<not> matches eq (dicts (users ! j)) ident"
    proof (intro allI impI)
      fix j assume "j < k"
      then have "Suc j < i" using k by simp
      with Cons.prems(3) show "\<not> matches eq (dicts (users ! j)) ident" by fastforce
    qed
    from Cons.prems(1,2) k have "k < length users" "\<not> has_id (dicts (users ! k))"
      by simp_all
    from Cons.IH [OF this rest] True nm show ?thesis
      by (simp add: find_user_pass del: find_user.simps)
  qed
qed

theorem find_user_missing_id_raises_witness:
  "(1 :: nat) < length [0, 2, 1 :: addr]
   \<and> \<not> has_id (example_dicts ([0, 2, 1] ! 1))
   \<and> \<not> matches (=) (example_dicts ([0, 2, 1] ! 0)) (IntField 2)
   \<and> matches (=) (example_dicts ([0, 2, 1] ! 2)) (IntField 2)
   \<and> find_user (=) example_dicts [0, 2, 1] (IntField 2) = Inl KeyError"
proof -
  have len: "(1 :: nat) < length [0, 2, 1 :: addr]"
    by simp
  have no_id: "\<not> has_id (example_dicts ([0, 2, 1] ! 1))"
    by (simp add: has_id_def example_dicts_def)
  have pre: "\<forall>j<1. \<not> matches (=) (example_dicts ([0, 2, 1] ! j)) (IntField 2)"
    by (simp add: matches_def example_dicts_def)
  have miss: "\<not> matches (=) (example_dicts ([0, 2, 1] ! 0)) (IntField 2)"
    by (simp add: matches_def example_dicts_def)
  have later: "matches (=) (example_dicts ([0, 2, 1] ! 2)) (IntField 2)"
    by (simp add: matches_def example_dicts_def)
  from find_user_missing_id_raises [OF len no_id pre]
  have run: "find_user (=) example_dicts [0, 2, 1] (IntField 2) = Inl KeyError" .
  from len no_id miss later run show ?thesis
    by blast
qed

section \<open>Properties of the DataCleaner\<close>

lemma process_loop_eq:
  "process_loop result data = Inr (result @ map strip (present data))"
proof (induction data arbitrary: result)
  case Nil
  show ?case by simp
next
  case (Cons item data)
  show ?case by (cases item) (simp_all add: Cons.IH)
qed

lemma present_filter: "map PyStr (present data) = filter ne_None data"
  by (induction data rule: present.induct) simp_all

lemma present_PyStr: "present (map PyStr out) = out"
  by (induction out) simp_all

lemma present_append: "present (xs @ ys) = present xs @ present ys"
  by (induction xs rule: present.induct) simp_all

lemma rev_dropWhile_takeWhile:
  "xs = rev (dropWhile P (rev xs)) @ rev (takeWhile P (rev xs))"
proof -
  have "rev xs = takeWhile P (rev xs) @ dropWhile P (rev xs)"
    by simp
  then have "rev (rev xs) = rev (takeWhile P (rev xs) @ dropWhile P (rev xs))"
    by (rule arg_cong)
  then show ?thesis
    by (simp only: rev_rev_ident rev_append)
qed

lemma dropWhile_unchanged:
  "xs \<noteq> [] \<Longrightarrow> \<not> P (hd xs) \<Longrightarrow> dropWhile P xs = xs"
  by (cases xs) simp_all

lemma strip_decomposition:
  "s = takeWhile is_space s @ strip s @ rev (takeWhile is_space (rev (dropWhile is_space s)))"
proof -
  let ?d = "dropWhile is_space s"
  have "?d = strip s @ rev (takeWhile is_space (rev ?d))"
    unfolding strip_def by (rule rev_dropWhile_takeWhile)
  moreover have "s = takeWhile is_space s @ ?d"
    by simp
  ultimately show ?thesis by simp
qed

lemma strip_surroundings:
  "\<exists>l r. s = l @ strip s @ r \<and> list_all is_space l \<and> list_all is_space r"
proof (intro exI conjI)
  show "s = takeWhile is_space s @ strip s @ rev (takeWhile is_space (rev (dropWhile is_space s)))"
    by (rule strip_decomposition)
  show "list_all is_space (takeWhile is_space s)"
    by (auto simp: list_all_iff dest: set_takeWhileD)
  show "list_all is_space (rev (takeWhile is_space (rev (dropWhile is_space s))))"
    by (auto simp: list_all_iff dest: set_takeWhileD)
qed

lemma strip_is_trimmed: "is_trimmed (strip s)"
proof (cases "strip s = []")
  case True
  then show ?thesis by (simp add: is_trimmed_def)
next
  case False
  let ?d = "dropWhile is_space s"
  let ?e = "dropWhile is_space (rev ?d)"
  have e: "?e \<noteq> []" using False by (simp add: strip_def)
  then have "\<not> is_space (hd ?e)" by (rule hd_dropWhile)
  moreover have "last (strip s) = hd ?e"
    using e by (simp add: strip_def last_rev)
  ultimately have l: "\<not> is_space (last (strip s))" by simp
  have d: "?d \<noteq> []"
  proof
    assume "?d = []"
    then have "?e = []" by (simp only: rev.simps dropWhile.simps)
    with e show False by simp
  qed
  then have nd: "\<not> is_space (hd ?d)" by (rule hd_dropWhile)
  have "?d = strip s @ rev (takeWhile is_space (rev ?d))"
    unfolding strip_def by (rule rev_dropWhile_takeWhile)
  then have "hd ?d = hd (strip s @ rev (takeWhile is_space (rev ?d)))"
    by (rule arg_cong)
  also have "\<dots> = hd (strip s)"
    using False by (rule hd_append2)
  finally have "hd ?d = hd (strip s)" .
  with nd l show ?thesis by (simp add: is_trimmed_def)
qed

lemma strip_of_trimmed: "is_trimmed t \<Longrightarrow> strip t = t"
proof (cases "t = []")
  case True
  then show ?thesis by (simp add: strip_def)
next
  case False
  assume "is_trimmed t"
  with False have h: "\<not> is_space (hd t)" and l: "\<not> is_space (last t)"
    by (simp_all add: is_trimmed_def)
  from False h have 1: "dropWhile is_space t = t"
    by (rule dropWhile_unchanged)
  have ne: "rev t \<noteq> []" using False by simp
  have "hd (rev t) = last t" using False by (simp add: hd_rev)
  with l have "\<not> is_space (hd (rev t))" by simp
  with ne have 2: "dropWhile is_space (rev t) = rev t"
    by (rule dropWhile_unchanged)
  show ?thesis
    unfolding strip_def by (simp only: 1 2 rev_rev_ident)
qed

lemma strip_idem: "strip (strip s) = strip s"
  by (rule strip_of_trimmed) (rule strip_is_trimmed)

lemma process_loop_obj_acc:
  "process_loop_obj acc data =
     (case process_loop_obj [] data of Inl e \<Rightarrow> Inl e | Inr r \<Rightarrow> Inr (acc @ r))"
proof (induction data arbitrary: acc)
  case Nil
  show ?case by simp
next
  case (Cons item data)
  show ?case
  proof (cases "ne_None_obj item")
    case False
    then show ?thesis using Cons.IH [of acc] by simp
  next
    case True
    show ?thesis
    proof (cases "strip_obj item")
      case (Inl e)
      with True show ?thesis by simp
    next
      case (Inr t)
      with True Cons.IH [of "acc @ [t]"] Cons.IH [of "[t]"] show ?thesis
        by (simp split: sum.splits)
    qed
  qed
qed

lemma process_loop_obj_append:
  "process_loop_obj acc (xs @ ys) =
     (case process_loop_obj acc xs of Inl e \<Rightarrow> Inl e | Inr r \<Rightarrow> process_loop_obj r ys)"
  by (induction xs arbitrary: acc) (simp_all split: sum.splits)

lemma process_loop_obj_of_item:
  "process_loop_obj acc (map of_item data) = process_loop acc data"
proof (induction data arbitrary: acc)
  case Nil
  show ?case by simp
next
  case (Cons item data)
  show ?case by (cases item) (simp_all add: Cons.IH)
qed

text \<open>
  C3: on a sequence of items, each \<^verbatim>\<open>None\<close> or a \<^verbatim>\<open>str\<close>, \<^verbatim>\<open>process_data\<close> raises nothing
  and returns the non-\<^verbatim>\<open>None\<close> items in their order, each stripped: as many strings as
  there are non-\<^verbatim>\<open>None\<close> items, each the item without the whitespace \<open>l\<close> before and \<open>r\<close>
  after it and with no whitespace left at either end; the empty sequence gives the empty
  sequence.
\<close>

theorem process_data_strips_present_items:
  "process_data data = Inr (map strip (present data))
   \<and> map PyStr (present data) = filter ne_None data
   \<and> length (map strip (present data)) = length (filter ne_None data)
   \<and> (\<forall>s\<in>set (present data).
         (\<exists>l r. s = l @ strip s @ r \<and> list_all is_space l \<and> list_all is_space r)
         \<and> is_trimmed (strip s))
   \<and> process_data [] = Inr []"
proof (intro conjI ballI)
  show "process_data data = Inr (map strip (present data))"
    by (simp add: process_data_def process_loop_eq)
  show "map PyStr (present data) = filter ne_None data"
    by (rule present_filter)
  have "length (present data) = length (map PyStr (present data))"
    by simp
  then show "length (map strip (present data)) = length (filter ne_None data)"
    by (simp add: present_filter)
  show "process_data [] = Inr []"
    by (simp add: process_data_def)
next
  fix s
  show "\<exists>l r. s = l @ strip s @ r \<and> list_all is_space l \<and> list_all is_space r"
    by (rule strip_surroundings)
  show "is_trimmed (strip s)"
    by (rule strip_is_trimmed)
qed

theorem process_data_strips_present_items_witness:
  "process_data [PyStr (py_str_of '' a ''), PyNone, PyStr (py_str_of ''b''), PyStr (py_str_of ''  '')]
     = Inr [py_str_of ''a'', py_str_of ''b'', []]
   \<and> present [PyStr (py_str_of '' a ''), PyNone, PyStr (py_str_of ''b''), PyStr (py_str_of ''  '')]
     = [py_str_of '' a '', py_str_of ''b'', py_str_of ''  '']
   \<and> is_trimmed (strip (py_str_of '' a ''))
   \<and> py_str_of '' a '' = [32] @ strip (py_str_of '' a '') @ [32]
   \<and> is_space 32"
proof -
  let ?data = "[PyStr (py_str_of '' a ''), PyNone, PyStr (py_str_of ''b''), PyStr (py_str_of ''  '')]"
  have p: "present ?data = [py_str_of '' a '', py_str_of ''b'', py_str_of ''  '']"
    by simp
  have mem: "py_str_of '' a '' \<in> set (present ?data)"
    by simp
  have s: "map strip (present ?data) = [py_str_of ''a'', py_str_of ''b'', []]"
    by (simp add: strip_def py_str_of_def is_space_def)
  from process_data_strips_present_items [of ?data] mem
  have "process_data ?data = Inr (map strip (present ?data))"
    and "is_trimmed (strip (py_str_of '' a ''))"
    by blast+
  with p s show ?thesis
    by (simp add: strip_def py_str_of_def is_space_def)
qed

text \<open>
  C5, as amended: \<^verbatim>\<open>process_data\<close> decides whether to skip an item by the comparison
  \<^verbatim>\<open>item != None\<close>, which is neither a test of the item's truth value nor an identity
  test. An item for which the comparison answers false is skipped, wherever it stands;
  an item for which it answers true is stripped and kept, or makes the call raise
  \<^verbatim>\<open>AttributeError\<close> when it has no \<^verbatim>\<open>strip\<close> method. Among \<^verbatim>\<open>None\<close> and plain strings the
  comparison agrees with the identity test, so there exactly \<^verbatim>\<open>None\<close> is skipped and the
  empty string, which is falsy, is kept (as the empty string).
\<close>

theorem process_data_tests_ne_None:
  "(\<not> ne_None_obj item \<longrightarrow>
      process_data_obj (before @ item # after) = process_data_obj (before @ after))
   \<and> (ne_None_obj item \<and> process_data_obj before = Inr r \<longrightarrow>
        process_data_obj (before @ item # after) =
          (case strip_obj item of
             Inl e \<Rightarrow> Inl e
           | Inr t \<Rightarrow>
               (case process_data_obj after of
                  Inl e \<Rightarrow> Inl e
                | Inr r' \<Rightarrow> Inr (r @ t # r'))))
   \<and> ne_None_obj (of_item plain) = ne_None plain
   \<and> ne_None_obj (of_item plain) = is_not_None (of_item plain)
   \<and> process_data_obj (map of_item items) = process_data items
   \<and> process_data_obj (map of_item items @ OStr [] # map of_item items') =
       Inr (map strip (present items) @ [] # map strip (present items'))"
proof (intro conjI impI)
  assume "\<not> ne_None_obj item"
  then show "process_data_obj (before @ item # after) = process_data_obj (before @ after)"
    by (simp add: process_data_obj_def process_loop_obj_append split: sum.splits)
next
  assume a: "ne_None_obj item \<and> process_data_obj before = Inr r"
  then have b: "process_loop_obj [] before = Inr r"
    by (simp add: process_data_obj_def)
  show "process_data_obj (before @ item # after) =
          (case strip_obj item of
             Inl e \<Rightarrow> Inl e
           | Inr t \<Rightarrow>
               (case process_data_obj after of
                  Inl e \<Rightarrow> Inl e
                | Inr r' \<Rightarrow> Inr (r @ t # r')))"
  proof (cases "strip_obj item")
    case (Inl e)
    with a b show ?thesis
      by (simp add: process_data_obj_def process_loop_obj_append)
  next
    case (Inr t)
    with a b process_loop_obj_acc [of "r @ [t]" after] show ?thesis
      by (simp add: process_data_obj_def process_loop_obj_append split: sum.splits)
  qed
next
  show "ne_None_obj (of_item plain) = ne_None plain"
    by (cases plain) simp_all
  show "ne_None_obj (of_item plain) = is_not_None (of_item plain)"
    by (cases plain) simp_all
  show "process_data_obj (map of_item items) = process_data items"
    by (simp add: process_data_obj_def process_data_def process_loop_obj_of_item)
  have "process_loop_obj [] (map of_item items) = Inr (map strip (present items))"
    by (simp add: process_loop_obj_of_item process_loop_eq)
  moreover have "process_loop_obj (map strip (present items) @ [[]]) (map of_item items')
      = Inr ((map strip (present items) @ [[]]) @ map strip (present items'))"
    by (simp only: process_loop_obj_of_item process_loop_eq)
  ultimately show "process_data_obj (map of_item items @ OStr [] # map of_item items') =
       Inr (map strip (present items) @ [] # map strip (present items'))"
    by (simp add: process_data_obj_def process_loop_obj_append strip_def)
qed

theorem process_data_tests_ne_None_witness:
  "\<not> ne_None_obj (OStrSub False (py_str_of ''x''))
   \<and> process_data_obj ([OStr (py_str_of '' a '')] @ OStrSub False (py_str_of ''x'') # [OStr []])
       = Inr [py_str_of ''a'', []]
   \<and> ne_None_obj (OStr []) \<and> process_data_obj [OStr (py_str_of '' a '')] = Inr [py_str_of ''a'']
   \<and> process_data_obj ([OStr (py_str_of '' a '')] @ OStr [] # [ONone]) = Inr [py_str_of ''a'', []]
   \<and> ne_None_obj (OInt 0)
   \<and> process_data_obj ([OStr (py_str_of '' a '')] @ OInt 0 # [ONone]) = Inl AttributeError"
proof -
  let ?before = "[OStr (py_str_of '' a '')]"
  have skip: "\<not> ne_None_obj (OStrSub False (py_str_of ''x''))"
    and keep: "ne_None_obj (OStr [])" and int: "ne_None_obj (OInt 0)"
    by simp_all
  have b: "process_data_obj ?before = Inr [py_str_of ''a'']"
    by (simp add: process_data_obj_def strip_def py_str_of_def is_space_def)
  from process_data_tests_ne_None
    [where item = "OStrSub False (py_str_of ''x'')" and before = ?before and after = "[OStr []]",
     THEN conjunct1, THEN mp, OF skip]
  have 1: "process_data_obj (?before @ OStrSub False (py_str_of ''x'') # [OStr []])
       = Inr [py_str_of ''a'', []]"
    by (simp add: process_data_obj_def strip_def py_str_of_def is_space_def)
  from process_data_tests_ne_None
    [where item = "OStr []" and before = ?before and after = "[ONone]"
       and r = "[py_str_of ''a'']",
     THEN conjunct2, THEN conjunct1, THEN mp, OF conjI, OF keep b]
  have 2: "process_data_obj (?before @ OStr [] # [ONone]) = Inr [py_str_of ''a'', []]"
    by (simp add: process_data_obj_def strip_def)
  from process_data_tests_ne_None
    [where item = "OInt 0" and before = ?before and after = "[ONone]"
       and r = "[py_str_of ''a'']",
     THEN conjunct2, THEN conjunct1, THEN mp, OF conjI, OF int b]
  have 3: "process_data_obj (?before @ OInt 0 # [ONone]) = Inl AttributeError"
    by simp
  from skip 1 keep b 2 int 3 show ?thesis
    by (intro conjI)
qed

text \<open>
  C5 as it was stated, that the test is an identity test against \<^verbatim>\<open>None\<close>, so that only
  absent items are skipped and every falsy item that is present is retained, fails on
  two items. An instance of a subclass of \<^verbatim>\<open>str\<close> whose \<^verbatim>\<open>__ne__\<close> answers false, with
  the empty text, is not \<^verbatim>\<open>None\<close> and is falsy, and \<^verbatim>\<open>process_data\<close> skips it. The int
  \<open>0\<close> is not \<^verbatim>\<open>None\<close> and is falsy, and \<^verbatim>\<open>process_data\<close> does not retain it: the call
  raises \<^verbatim>\<open>AttributeError\<close>.
\<close>

theorem process_data_identity_counterexample:
  "is_not_None (OStrSub False []) \<and> \<not> truthy_obj (OStrSub False [])
   \<and> process_data_obj [OStrSub False []] = Inr []
   \<and> is_not_None (OInt 0) \<and> \<not> truthy_obj (OInt 0)
   \<and> process_data_obj [OInt 0] = Inl AttributeError"
  by (simp add: process_data_obj_def)

text \<open>
  C10: \<^verbatim>\<open>process_data\<close> is idempotent on its own output: a result holds no \<^verbatim>\<open>None\<close> and
  only stripped strings, so cleaning it again returns it unchanged.
\<close>

theorem process_data_idempotent:
  "\<exists>out. process_data data = Inr out \<and> process_data (map PyStr out) = Inr out"
proof (intro exI conjI)
  show "process_data data = Inr (map strip (present data))"
    by (simp add: process_data_def process_loop_eq)
  have again: "present (map PyStr (map strip (present data))) = map strip (present data)"
    by (rule present_PyStr)
  have stripped: "map strip (map strip (present data)) = map strip (present data)"
    by (simp add: strip_idem)
  show "process_data (map PyStr (map strip (present data))) = Inr (map strip (present data))"
    unfolding process_data_def process_loop_eq again stripped by simp
qed

theorem process_data_idempotent_witness:
  "process_data [PyStr (py_str_of '' a ''), PyNone, PyStr (py_str_of ''  '')]
     = Inr [py_str_of ''a'', []]
   \<and> process_data (map PyStr [py_str_of ''a'', []]) = Inr [py_str_of ''a'', []]"
proof -
  let ?data = "[PyStr (py_str_of '' a ''), PyNone, PyStr (py_str_of ''  '')]"
  have run: "process_data ?data = Inr [py_str_of ''a'', []]"
    by (simp add: process_data_def strip_def py_str_of_def is_space_def)
  from process_data_idempotent [of ?data] obtain out where
    out: "process_data ?data = Inr out" "process_data (map PyStr out) = Inr out"
    by blast
  from out(1) run have "out = [py_str_of ''a'', []]"
    by simp
  with out(2) have "process_data (map PyStr [py_str_of ''a'', []]) = Inr [py_str_of ''a'', []]"
    by simp
  with run show ?thesis
    by (intro conjI)
qed

section \<open>Effects of the three functions\<close>

text \<open>
  On the store each function computes what it computes on the contents of its argument.
\<close>

lemma sum_loop_st_eq:
  "sum_loop_st ops numbers i tot s = (sum_loop ops tot (drop i (cells s numbers)), s)"
proof (induction ops numbers i tot s rule: sum_loop_st.induct)
  case (1 ops numbers i tot s)
  show ?case
  proof (cases "i < length (cells s numbers)")
    case False
    then show ?thesis by (subst sum_loop_st.simps) simp
  next
    case True
    then have d: "drop i (cells s numbers) = cells s numbers ! i # drop (Suc i) (cells s numbers)"
      by (simp add: Cons_nth_drop_Suc)
    show ?thesis
    proof (cases "py_add ops tot (cells s numbers ! i)")
      case (Inl e)
      with True d show ?thesis by (subst sum_loop_st.simps) simp
    next
      case (Inr t)
      with True d "1.IH" [OF True Inr] show ?thesis by (subst sum_loop_st.simps) simp
    qed
  qed
qed

lemma calculate_average_st_eq:
  "calculate_average_st ops numbers s = (calculate_average ops (cells s numbers), s)"
  by (simp add: calculate_average_st_def calculate_average_def sum_loop_st_eq split: sum.splits)

lemma find_loop_st_eq:
  "find_loop_st eq users i ident s =
     (find_user eq (dict_cells s) (drop i (cells s users)) ident, s)"
proof (induction eq users i ident s rule: find_loop_st.induct)
  case (1 eq users i ident s)
  show ?case
  proof (cases "i < length (cells s users)")
    case False
    then show ?thesis by (subst find_loop_st.simps) simp
  next
    case True
    then have d: "drop i (cells s users) = cells s users ! i # drop (Suc i) (cells s users)"
      by (simp add: Cons_nth_drop_Suc)
    show ?thesis
    proof (cases "subscript (dict_cells s (cells s users ! i)) ''id''")
      case (Inl e)
      with True d show ?thesis by (subst find_loop_st.simps) simp
    next
      case (Inr v)
      show ?thesis
      proof (cases "eq v ident")
        case True
        with \<open>i < length (cells s users)\<close> d Inr show ?thesis
          by (subst find_loop_st.simps) simp
      next
        case False
        with \<open>i < length (cells s users)\<close> d Inr "1.IH" [OF \<open>i < length (cells s users)\<close> Inr False]
        show ?thesis
          by (subst find_loop_st.simps) simp
      qed
    qed
  qed
qed

lemma find_user_st_eq:
  "find_user_st eq users ident s = (find_user eq (dict_cells s) (cells s users) ident, s)"
  by (simp add: find_user_st_def find_loop_st_eq)

lemma process_loop_st_eq:
  assumes "result \<noteq> data"
  shows "process_loop_st data result i s =
     Some (Inr (), s\<lparr>cells := (cells s)
        (result := cells s result @ map PyStr (map strip (present (drop i (cells s data)))))\<rparr>)"
  using assms
proof (induction "length (cells s data) - i" arbitrary: i s)
  case 0
  then have "\<not> i < length (cells s data)" by simp
  then show ?case
    by (subst process_loop_st.simps) simp
next
  case (Suc k)
  then have lt: "i < length (cells s data)" by simp
  then have d: "drop i (cells s data) = cells s data ! i # drop (Suc i) (cells s data)"
    by (simp add: Cons_nth_drop_Suc)
  show ?case
  proof (cases "cells s data ! i")
    case PyNone
    have "k = length (cells s data) - Suc i" using Suc.hyps(2) by simp
    from Suc.hyps(1) [OF this Suc.prems] PyNone lt d show ?thesis
      by (subst process_loop_st.simps) simp
  next
    case (PyStr t)
    let ?s = "list_append result (PyStr (strip t)) s"
    have same: "cells ?s data = cells s data"
      using Suc.prems by (simp add: list_append_def)
    then have "k = length (cells ?s data) - Suc i" using Suc.hyps(2) by simp
    from Suc.hyps(1) [OF this Suc.prems] PyStr lt d same show ?thesis
      by (subst process_loop_st.simps) (simp add: list_append_def)
  qed
qed

lemma find_user_equal_records:
  "map d1 users1 = map d2 users2 \<Longrightarrow>
   deref d1 (find_user eq d1 users1 ident) = deref d2 (find_user eq d2 users2 ident)"
proof (induction users1 arbitrary: users2)
  case Nil
  then show ?case by (simp add: deref_def)
next
  case (Cons a users1)
  then obtain b rest where u2: "users2 = b # rest" and ab: "d1 a = d2 b"
    and tl: "map d1 users1 = map d2 rest"
    by (cases users2) auto
  from Cons.IH [OF tl] ab show ?case
    unfolding u2 by (simp add: deref_def split: sum.splits)
qed

lemma process_data_st_eq:
  assumes "data < next_free t"
  shows "process_data_st data t =
     Some (Inr (next_free t),
           t\<lparr>cells := (cells t)(next_free t := map PyStr (map strip (present (cells t data)))),
             next_free := Suc (next_free t)\<rparr>)"
proof -
  let ?r = "next_free t"
  let ?t0 = "t\<lparr>cells := (cells t)(?r := []), next_free := Suc ?r\<rparr>"
  have ne: "?r \<noteq> data" using assms by simp
  have "process_loop_st data ?r 0 ?t0 =
     Some (Inr (), ?t0\<lparr>cells := (cells ?t0)
        (?r := cells ?t0 ?r @ map PyStr (map strip (present (drop 0 (cells ?t0 data)))))\<rparr>)"
    using ne by (rule process_loop_st_eq)
  with ne show ?thesis
    by (simp add: process_data_st_def alloc_list_def)
qed

lemma process_data_st_frame:
  assumes "data < next_free t"
  shows "\<exists>out t'. process_data_st data t = Some (Inr (next_free t), t')
           \<and> process_data (cells t data) = Inr out
           \<and> cells t' (next_free t) = map PyStr out
           \<and> (\<forall>a. a \<noteq> next_free t \<longrightarrow> cells t' a = cells t a)"
proof -
  let ?out = "map strip (present (cells t data))"
  let ?t' = "t\<lparr>cells := (cells t)(next_free t := map PyStr ?out),
               next_free := Suc (next_free t)\<rparr>"
  have "process_data_st data t = Some (Inr (next_free t), ?t')"
    using assms by (rule process_data_st_eq)
  moreover have "process_data (cells t data) = Inr ?out"
    by (simp add: process_data_def process_loop_eq)
  moreover have "cells ?t' (next_free t) = map PyStr ?out"
    by simp
  moreover have "\<forall>a. a \<noteq> next_free t \<longrightarrow> cells ?t' a = cells t a"
    by simp
  ultimately show ?thesis
    by blast
qed

lemma process_data_st_deterministic:
  assumes "data < next_free t" and "data' < next_free t'" and "cells t data = cells t' data'"
  shows "\<exists>r u r' u'. process_data_st data t = Some (Inr r, u)
           \<and> process_data_st data' t' = Some (Inr r', u')
           \<and> cells u r = cells u' r'"
proof -
  from process_data_st_frame [OF assms(1)] obtain out u where
    1: "process_data_st data t = Some (Inr (next_free t), u)"
       "process_data (cells t data) = Inr out" "cells u (next_free t) = map PyStr out"
    by blast
  from process_data_st_frame [OF assms(2)] obtain out' u' where
    2: "process_data_st data' t' = Some (Inr (next_free t'), u')"
       "process_data (cells t' data') = Inr out'" "cells u' (next_free t') = map PyStr out'"
    by blast
  from 1(2) 2(2) assms(3) have "out = out'" by simp
  with 1 2 have "cells u (next_free t) = cells u' (next_free t')" by simp
  with 1(1) 2(1) show ?thesis by blast
qed

text \<open>
  C6: the three functions are deterministic and leave their inputs alone.
  \<^verbatim>\<open>calculate_average\<close> and \<^verbatim>\<open>find_user\<close> return the store they were given, and their
  result is that of the function on the contents of the argument. \<^verbatim>\<open>process_data\<close>, on a
  list that exists (its address is below \<open>next_free\<close>), returns: its result is a new list
  at the address \<open>next_free\<close>, and every other list of the store, the input among them, is
  as it was. Two runs on equal inputs give equal results, wherever the inputs stand in
  the store and whatever else the store holds: for \<^verbatim>\<open>find_user\<close> on two lists of equal
  records the same outcome and, when a record is found, equal records; for
  \<^verbatim>\<open>process_data\<close> two lists with the same elements.
\<close>

theorem calls_are_pure:
  "calculate_average_st ops numbers s = (calculate_average ops (cells s numbers), s)
   \<and> find_user_st eq users ident u = (find_user eq (dict_cells u) (cells u users) ident, u)
   \<and> (data < next_free t \<longrightarrow>
        (\<exists>out t'. process_data_st data t = Some (Inr (next_free t), t')
           \<and> process_data (cells t data) = Inr out
           \<and> cells t' (next_free t) = map PyStr out
           \<and> (\<forall>a. a \<noteq> next_free t \<longrightarrow> cells t' a = cells t a)))
   \<and> (cells s numbers = cells s' numbers' \<longrightarrow>
        fst (calculate_average_st ops numbers s) = fst (calculate_average_st ops numbers' s'))
   \<and> (map (dict_cells u) (cells u users) = map (dict_cells u') (cells u' users') \<longrightarrow>
        deref (dict_cells u) (fst (find_user_st eq users ident u))
          = deref (dict_cells u') (fst (find_user_st eq users' ident u')))
   \<and> (data < next_free t \<and> data' < next_free t' \<and> cells t data = cells t' data' \<longrightarrow>
        (\<exists>r v r' v'. process_data_st data t = Some (Inr r, v)
           \<and> process_data_st data' t' = Some (Inr r', v')
           \<and> cells v r = cells v' r'))"
proof (intro conjI impI)
  show "calculate_average_st ops numbers s = (calculate_average ops (cells s numbers), s)"
    by (rule calculate_average_st_eq)
  show "find_user_st eq users ident u = (find_user eq (dict_cells u) (cells u users) ident, u)"
    by (rule find_user_st_eq)
next
  assume "data < next_free t"
  then show "\<exists>out t'. process_data_st data t = Some (Inr (next_free t), t')
           \<and> process_data (cells t data) = Inr out
           \<and> cells t' (next_free t) = map PyStr out
           \<and> (\<forall>a. a \<noteq> next_free t \<longrightarrow> cells t' a = cells t a)"
    by (rule process_data_st_frame)
next
  assume "cells s numbers = cells s' numbers'"
  then show "fst (calculate_average_st ops numbers s) = fst (calculate_average_st ops numbers' s')"
    by (simp add: calculate_average_st_eq)
next
  assume "map (dict_cells u) (cells u users) = map (dict_cells u') (cells u' users')"
  then show "deref (dict_cells u) (fst (find_user_st eq users ident u))
          = deref (dict_cells u') (fst (find_user_st eq users' ident u'))"
    unfolding find_user_st_eq fst_conv by (rule find_user_equal_records)
next
  assume "data < next_free t \<and> data' < next_free t' \<and> cells t data = cells t' data'"
  then show "\<exists>r v r' v'. process_data_st data t = Some (Inr r, v)
           \<and> process_data_st data' t' = Some (Inr r', v')
           \<and> cells v r = cells v' r'"
    using process_data_st_deterministic [of data t data' t'] by blast
qed

theorem calls_are_pure_witness:
  "calculate_average_st exact_ops 0 example_numbers = (Inr (PyFloat 4), example_numbers)
   \<and> find_user_st (=) 4 (IntField 2) example_users = (Inr (Some 1), example_users)
   \<and> 0 < next_free example_items \<and> 3 < next_free example_items'
   \<and> cells example_items 0 = cells example_items' 3
   \<and> cells example_numbers 0 = cells example_numbers' 2
   \<and> map (dict_cells example_users) (cells example_users 4)
       = map (dict_cells example_users') (cells example_users' 9)
   \<and> (\<exists>t'. process_data_st 0 example_items = Some (Inr 1, t')
         \<and> cells t' 1 = [PyStr (py_str_of ''a'')]
         \<and> cells t' 0 = cells example_items 0)
   \<and> fst (calculate_average_st exact_ops 0 example_numbers)
       = fst (calculate_average_st exact_ops 2 example_numbers')
   \<and> fst (find_user_st (=) 9 (IntField 2) example_users') = Inr (Some 3)
   \<and> deref (dict_cells example_users) (fst (find_user_st (=) 4 (IntField 2) example_users))
       = deref (dict_cells example_users') (fst (find_user_st (=) 9 (IntField 2) example_users'))
   \<and> (\<exists>r v r' v'. process_data_st 0 example_items = Some (Inr r, v)
         \<and> process_data_st 3 example_items' = Some (Inr r', v')
         \<and> cells v r = cells v' r')"
proof -
  note pure = calls_are_pure
    [where ops = exact_ops and numbers = 0 and s = example_numbers
       and numbers' = 2 and s' = example_numbers'
       and eq = "(=)" and users = 4 and ident = "IntField 2" and u = example_users
       and users' = 9 and u' = example_users'
       and data = 0 and t = example_items and data' = 3 and t' = example_items']
  have alloc: "0 < next_free example_items"
    by (simp add: example_items_def)
  have alloc': "3 < next_free example_items'"
    by (simp add: example_items'_def)
  have items: "cells example_items 0 = cells example_items' 3"
    by (simp add: example_items_def example_items'_def)
  have nums: "cells example_numbers 0 = cells example_numbers' 2"
    by (simp add: example_numbers_def example_numbers'_def)
  have lists: "map (dict_cells example_users) (cells example_users 4)
       = map (dict_cells example_users') (cells example_users' 9)"
    by (simp add: example_users_def example_users'_def example_dicts_def)
  have other: "fst (find_user_st (=) 9 (IntField 2) example_users') = Inr (Some 3)"
    by (simp add: find_user_st_eq example_users'_def example_dicts_def subscript_def)
  have avg: "calculate_average exact_ops (cells example_numbers 0) = Inr (PyFloat 4)"
    by (simp add: example_numbers_def calculate_average_def exact_ops_def)
  have find: "find_user (=) (dict_cells example_users) (cells example_users 4) (IntField 2)
                = Inr (Some 1)"
    by (simp add: example_users_def example_dicts_def subscript_def)
  have clean: "process_data (cells example_items 0) = Inr [py_str_of ''a'']"
    by (simp add: example_items_def process_data_def strip_def py_str_of_def is_space_def)
  have nf: "next_free example_items = 1"
    by (simp add: example_items_def)
  have 1: "calculate_average_st exact_ops 0 example_numbers = (Inr (PyFloat 4), example_numbers)"
    using pure [THEN conjunct1] avg by simp
  have 2: "find_user_st (=) 4 (IntField 2) example_users = (Inr (Some 1), example_users)"
    using pure [THEN conjunct2, THEN conjunct1] find by simp
  from pure [THEN conjunct2, THEN conjunct2, THEN conjunct1, THEN mp, OF alloc]
  obtain out t' where t: "process_data_st 0 example_items = Some (Inr (next_free example_items), t')"
    "process_data (cells example_items 0) = Inr out"
    "cells t' (next_free example_items) = map PyStr out"
    "\<forall>a. a \<noteq> next_free example_items \<longrightarrow> cells t' a = cells example_items a"
    by blast
  from t(2) clean have out: "out = [py_str_of ''a'']"
    by simp
  from t(4) nf have "cells t' 0 = cells example_items 0"
    by simp
  with t(1,3) out nf have "process_data_st 0 example_items = Some (Inr 1, t')
         \<and> cells t' 1 = [PyStr (py_str_of ''a'')]
         \<and> cells t' 0 = cells example_items 0"
    by simp
  then have 3: "\<exists>t'. process_data_st 0 example_items = Some (Inr 1, t')
         \<and> cells t' 1 = [PyStr (py_str_of ''a'')]
         \<and> cells t' 0 = cells example_items 0" ..
  have 4: "fst (calculate_average_st exact_ops 0 example_numbers)
       = fst (calculate_average_st exact_ops 2 example_numbers')"
    using pure [THEN conjunct2, THEN conjunct2, THEN conjunct2, THEN conjunct1, THEN mp, OF nums] .
  have 5: "deref (dict_cells example_users) (fst (find_user_st (=) 4 (IntField 2) example_users))
       = deref (dict_cells example_users') (fst (find_user_st (=) 9 (IntField 2) example_users'))"
    using pure [THEN conjunct2, THEN conjunct2, THEN conjunct2, THEN conjunct2, THEN conjunct1,
        THEN mp, OF lists] .
  have 6: "\<exists>r v r' v'. process_data_st 0 example_items = Some (Inr r, v)
         \<and> process_data_st 3 example_items' = Some (Inr r', v')
         \<and> cells v r = cells v' r'"
    using pure [THEN conjunct2, THEN conjunct2, THEN conjunct2, THEN conjunct2, THEN conjunct2,
        THEN mp, OF conjI, OF alloc conjI, OF alloc' items] .
  from 1 2 alloc alloc' items nums lists 3 4 other 5 6 show ?thesis
    by (intro conjI)
qed

end
